theory Spec2Isabelle
  imports Main
begin

section \<open>Data model of \<^verbatim>\<open>scripts/normalize_articles.py\<close>\<close>

text \<open>
  A Python \<^verbatim>\<open>str\<close> is a sequence of Unicode code points, so texts are lists of
  natural numbers. Field names and tags that the script writes as ASCII literals
  (\<^verbatim>\<open>'normalized'\<close>, \<^verbatim>\<open>'text'\<close>, the \<^verbatim>\<open>--resume-from\<close> argument) are HOL strings.
\<close>

type_synonym ustr = "nat list"

text \<open>
  A stored value of the \<^verbatim>\<open>text\<close> field: a string; an array, with its elements and
  the text that Python's \<^verbatim>\<open>str()\<close> prints for the list; or any other BSON value,
  which carries the text that \<^verbatim>\<open>str()\<close> prints for it.
\<close>

datatype bson_value = BString ustr | BArray "bson_value list" ustr | BOther ustr

record revision =
  revision_type :: string
  normalized_at :: int
  source_fields :: "string list"
  revision_text :: ustr

text \<open>
  A document of the collection: \<^verbatim>\<open>_id\<close> (an ObjectId, twelve bytes read as a
  number, ordered as MongoDB orders them), the \<^verbatim>\<open>text\<close> field and the
  \<^verbatim>\<open>revisions\<close> array, each of which may be absent. The script reads and writes
  no other field. The collection is the list of its documents.
\<close>

record document =
  doc_id :: nat
  doc_text :: "bson_value option"
  revisions :: "revision list option"

text \<open>
  What one HTTP exchange with the service comes to: a response with its status, its
  raw body, and the string found at \<^verbatim>\<open>data['choices'][0]['message']['content']\<close>
  when the body is JSON of that shape; a timeout; or any other client error.
\<close>

datatype api_reply = Reply nat ustr "ustr option" | TimedOut | ClientError

datatype failure =
    ApiError nat ustr
  | UnexpectedFormat
  | RequestTimeout
  | ClientFailure
  | RequestFailed failure

text \<open>
  The collaborators of one run: the reply of the service to the request made for a
  document (the request carries only the text; a run asks at most once per document),
  and the clock read when that document's revision is built.
\<close>

record world =
  service :: "nat \<Rightarrow> ustr \<Rightarrow> api_reply"
  clock :: "nat \<Rightarrow> int"

text \<open>The lines the script prints.\<close>

datatype line =
    SendingText ustr
  | NormalizationFailed nat failure
  | DryRunPreview nat ustr ustr
  | Updating nat
  | ProcessingBatch nat
  | InvalidResumeFrom string
  | ProcessingCount nat
  | ProcessedProgress nat
  | DoneTotal nat

record pipeline_state =
  storage :: "document list"
  printed :: "line list"

definition emit :: "line \<Rightarrow> pipeline_state \<Rightarrow> pipeline_state" where
  "emit l st = st\<lparr>printed := printed st @ [l]\<rparr>"

section \<open>Text functions\<close>

text \<open>The characters for which \<^verbatim>\<open>str.isspace\<close> holds; \<^verbatim>\<open>str.strip()\<close> removes them.\<close>

definition isspace :: "nat \<Rightarrow> bool" where
  "isspace c \<longleftrightarrow>
     (9 \<le> c \<and> c \<le> 13) \<or> (28 \<le> c \<and> c \<le> 32) \<or> c = 0x85 \<or> c = 0xA0 \<or> c = 0x1680 \<or>
     (0x2000 \<le> c \<and> c \<le> 0x200A) \<or> c = 0x2028 \<or> c = 0x2029 \<or> c = 0x202F \<or>
     c = 0x205F \<or> c = 0x3000"

definition strip :: "ustr \<Rightarrow> ustr" where
  "strip s = rev (dropWhile isspace (rev (dropWhile isspace s)))"

text \<open>
  The class that the escape \<^verbatim>\<open>\s\<close> of the database's regular expressions stands
  for (space, tab, line feed, vertical tab, form feed, carriage return); \<^verbatim>\<open>\S\<close> is
  its complement.
\<close>

definition regex_space :: "nat \<Rightarrow> bool" where
  "regex_space c \<longleftrightarrow> (9 \<le> c \<and> c \<le> 13) \<or> c = 32"

text \<open>
  \<^verbatim>\<open>str.replace(old, new)\<close>: every non-overlapping occurrence of \<open>old\<close>, from the
  left; an empty \<open>old\<close> matches before every character and at the end.
\<close>

function str_replace :: "'a list \<Rightarrow> 'a list \<Rightarrow> 'a list \<Rightarrow> 'a list" where
  "str_replace old new s =
     (if old = [] then concat (map (\<lambda>c. new @ [c]) s) @ new
      else if s = [] then []
      else if take (length old) s = old
        then new @ str_replace old new (drop (length old) s)
      else hd s # str_replace old new (tl s))"
  by pat_completeness auto
termination
  by (relation "measure (\<lambda>(old, new, s). length s)") auto

declare str_replace.simps [simp del]

text \<open>
  The table of \<^verbatim>\<open>normalize_quote_characters\<close>, in the order in which the dict
  literal holds its keys (the key U+201F is written twice, with the same value).
\<close>

definition replacements :: "(ustr \<times> ustr) list" where
  "replacements =
     [([0x201C], [0x22]), ([0x201D], [0x22]), ([0x201E], [0x22]), ([0x201F], [0x22]),
      ([0xAB], [0x22]), ([0xBB], [0x22]), ([0xFF02], [0x22]),
      ([0x2018], [0x27]), ([0x2019], [0x27]), ([0x201A], [0x27]), ([0x201B], [0x27]),
      ([0x2039], [0x27]), ([0x203A], [0x27]), ([0xFF07], [0x27])]"

definition normalize_quote_characters :: "ustr \<Rightarrow> ustr" where
  "normalize_quote_characters t =
     (if t = [] then t
      else fold (\<lambda>(src, dst) out. str_replace src dst out) replacements t)"

section \<open>The normalization client\<close>

text \<open>
  \<^verbatim>\<open>normalize_text_via_openai_compatible\<close>, given the reply to its one request. A
  status other than 200 and a body of another shape raise inside the outer
  \<^verbatim>\<open>try\<close>, whose last handler wraps them; a timeout has a handler of its own.
  The URL, headers and fixed part of the payload are part of the request that the
  reply answers; the line the function prints before the request is printed by its
  caller in \<open>process_single_document\<close> below.
\<close>

definition normalize_text_via_openai_compatible :: "api_reply \<Rightarrow> failure + ustr" where
  "normalize_text_via_openai_compatible reply =
     (case reply of
        TimedOut \<Rightarrow> Inl RequestTimeout
      | ClientError \<Rightarrow> Inl (RequestFailed ClientFailure)
      | Reply status body content \<Rightarrow>
          if status \<noteq> 200 then Inl (RequestFailed (ApiError status body))
          else (case content of
                  None \<Rightarrow> Inl (RequestFailed UnexpectedFormat)
                | Some c \<Rightarrow> Inr (strip c)))"

section \<open>Revisions and the persistence write\<close>

definition build_revision :: "int \<Rightarrow> document \<Rightarrow> ustr \<Rightarrow> revision" where
  "build_revision now original normalized_text =
     \<lparr>revision_type = ''normalized'', normalized_at = now,
      source_fields = [''text''], revision_text = normalized_text\<rparr>"

text \<open>\<^verbatim>\<open>$push\<close> onto \<^verbatim>\<open>revisions\<close>: an absent array is created.\<close>

definition push_revision :: "revision \<Rightarrow> document \<Rightarrow> document" where
  "push_revision r d =
     d\<lparr>revisions := Some ((case revisions d of None \<Rightarrow> [] | Some rs \<Rightarrow> rs) @ [r])\<rparr>"

text \<open>\<^verbatim>\<open>collection.update_one({'_id': i}, {'$push': {'revisions': r}})\<close>: the first
  document with that identifier, if there is one.\<close>

fun update_one :: "nat \<Rightarrow> revision \<Rightarrow> document list \<Rightarrow> document list" where
  "update_one i r [] = []"
| "update_one i r (d # ds) =
     (if doc_id d = i then push_revision r d # ds else d # update_one i r ds)"

section \<open>One document, one group\<close>

text \<open>\<^verbatim>\<open>str(doc.get('text', ''))\<close>\<close>

definition text_of :: "document \<Rightarrow> ustr" where
  "text_of doc =
     (case doc_text doc of
        None \<Rightarrow> []
      | Some (BString s) \<Rightarrow> s
      | Some (BArray xs r) \<Rightarrow> r
      | Some (BOther r) \<Rightarrow> r)"

definition process_single_document ::
  "world \<Rightarrow> bool \<Rightarrow> document \<Rightarrow> pipeline_state \<Rightarrow> bool \<times> pipeline_state" where
  "process_single_document w dry_run doc st =
     (let txt = strip (text_of doc) in
      if txt = [] then (False, st)
      else
        let st1 = emit (SendingText txt) st in
        case normalize_text_via_openai_compatible (service w (doc_id doc) txt) of
          Inl e \<Rightarrow> (False, emit (NormalizationFailed (doc_id doc) e) st1)
        | Inr n \<Rightarrow>
            let normalized = normalize_quote_characters n;
                rev = build_revision (clock w (doc_id doc)) doc normalized
            in if dry_run
               then (True, emit (DryRunPreview (doc_id doc) txt normalized) st1)
               else (True, (emit (Updating (doc_id doc)) st1)
                             \<lparr>storage := update_one (doc_id doc) rev (storage st1)\<rparr>))"

text \<open>
  The tasks of one group. Each task touches only the document it was given, so the
  storage they leave does not depend on how the event loop interleaves them; the
  model runs them in the order of the list.
\<close>

fun gather :: "world \<Rightarrow> bool \<Rightarrow> document list \<Rightarrow> pipeline_state \<Rightarrow> bool list \<times> pipeline_state" where
  "gather w dry_run [] st = ([], st)"
| "gather w dry_run (doc # docs) st =
     (let (r, st1) = process_single_document w dry_run doc st;
          (rs, st2) = gather w dry_run docs st1
      in (r # rs, st2))"

definition process_documents_batch ::
  "world \<Rightarrow> bool \<Rightarrow> document list \<Rightarrow> pipeline_state \<Rightarrow> nat \<times> pipeline_state" where
  "process_documents_batch w dry_run docs st =
     (let (results, st1) = gather w dry_run docs (emit (ProcessingBatch (length docs)) st)
      in (length (filter (\<lambda>r. r) results), st1))"

section \<open>The selector\<close>

text \<open>\<^verbatim>\<open>ObjectId(s)\<close> for a string: twenty-four hexadecimal digits, or InvalidId.\<close>

definition hex_digit :: "char \<Rightarrow> nat option" where
  "hex_digit c =
     (let n = (of_char c :: nat) in
      if 48 \<le> n \<and> n \<le> 57 then Some (n - 48)
      else if 97 \<le> n \<and> n \<le> 102 then Some (n - 87)
      else if 65 \<le> n \<and> n \<le> 70 then Some (n - 55)
      else None)"

definition ObjectId :: "string \<Rightarrow> nat option" where
  "ObjectId s =
     (if length s = 24 \<and> list_all (\<lambda>c. hex_digit c \<noteq> None) s
      then Some (foldl (\<lambda>a c. 16 * a + the (hex_digit c)) 0 s)
      else None)"

text \<open>
  The lower bound of the query: \<^verbatim>\<open>if resume_from:\<close> skips \<^verbatim>\<open>None\<close> and the empty
  string, and an identifier that does not parse leaves the query without a bound.
\<close>

definition resume_bound :: "string option \<Rightarrow> nat option" where
  "resume_bound resume_from =
     (case resume_from of
        None \<Rightarrow> None
      | Some s \<Rightarrow> if s = [] then None else ObjectId s)"

text \<open>
  The two operators that the query puts on \<^verbatim>\<open>text\<close>, on one value:
  \<^verbatim>\<open>$type: 'string'\<close>, and \<^verbatim>\<open>$regex: r'\S'\<close>, which only a string can match.
\<close>

fun type_string :: "bson_value \<Rightarrow> bool" where
  "type_string (BString s) = True"
| "type_string (BArray xs r) = False"
| "type_string (BOther r) = False"

fun regex_nonspace :: "bson_value \<Rightarrow> bool" where
  "regex_nonspace (BString s) = list_ex (\<lambda>c. \<not> regex_space c) s"
| "regex_nonspace (BArray xs r) = False"
| "regex_nonspace (BOther r) = False"

text \<open>
  The database applies an operator to the value of the field and, when that value is
  an array, to each of its elements as well (one level deep); the field satisfies
  the operator when one of them does.
\<close>

fun field_matches :: "(bson_value \<Rightarrow> bool) \<Rightarrow> bson_value \<Rightarrow> bool" where
  "field_matches p (BString s) = p (BString s)"
| "field_matches p (BArray xs r) = (p (BArray xs r) \<or> list_ex p xs)"
| "field_matches p (BOther r) = p (BOther r)"

text \<open>
  The query: \<^verbatim>\<open>text\<close> is present and satisfies both operators; \<^verbatim>\<open>revisions\<close> is
  absent or has no element with \<^verbatim>\<open>revision_type\<close> \<^verbatim>\<open>'normalized'\<close>; \<^verbatim>\<open>_id\<close> is
  above the bound when there is one.
\<close>

definition matches_query :: "nat option \<Rightarrow> document \<Rightarrow> bool" where
  "matches_query bound d \<longleftrightarrow>
     (case doc_text d of
        None \<Rightarrow> False
      | Some v \<Rightarrow> field_matches type_string v \<and> field_matches regex_nonspace v) \<and>
     (case revisions d of
        None \<Rightarrow> True
      | Some rs \<Rightarrow> \<not> list_ex (\<lambda>r. revision_type r = ''normalized'') rs) \<and>
     (case bound of None \<Rightarrow> True | Some x \<Rightarrow> x < doc_id d)"

text \<open>\<^verbatim>\<open>collection.find(query).sort('_id', 1)\<close>\<close>

definition find_sorted :: "nat option \<Rightarrow> document list \<Rightarrow> document list" where
  "find_sorted bound coll = sort_key doc_id (filter (matches_query bound) coll)"

section \<open>The run\<close>

text \<open>
  The \<^verbatim>\<open>for doc in cursor\<close> loop of \<^verbatim>\<open>run_async_processing\<close>, with its locals
  \<open>processed\<close> and \<open>batch\<close>. The cursor delivers the documents that matched when the
  query was issued.
\<close>

fun drain ::
  "world \<Rightarrow> int option \<Rightarrow> int \<Rightarrow> bool \<Rightarrow> document list \<Rightarrow> nat \<Rightarrow> document list \<Rightarrow>
   pipeline_state \<Rightarrow> nat \<times> document list \<times> pipeline_state" where
  "drain w limit batch_size dry_run [] processed batch st = (processed, batch, st)"
| "drain w limit batch_size dry_run (doc # cursor) processed batch st =
     (if (case limit of None \<Rightarrow> False | Some l \<Rightarrow> int processed \<ge> l)
      then (processed, batch, st)
      else
        let batch1 = batch @ [doc] in
        if int (length batch1) \<ge> batch_size then
          let (batch_processed, st1) = process_documents_batch w dry_run batch1 st;
              processed1 = processed + batch_processed;
              st2 = (if batch_size > 0 \<and> int processed1 mod batch_size = 0
                     then emit (ProcessedProgress processed1) st1 else st1)
          in drain w limit batch_size dry_run cursor processed1 [] st2
        else drain w limit batch_size dry_run cursor processed batch1 st)"

definition process_documents ::
  "document list \<Rightarrow> int option \<Rightarrow> string option \<Rightarrow> int \<Rightarrow> bool \<Rightarrow> world \<Rightarrow>
   nat \<times> pipeline_state" where
  "process_documents collection limit resume_from batch_size dry_run w =
     (let st0 = \<lparr>storage = collection, printed = []\<rparr>;
          st1 = (if resume_from \<noteq> None \<and> resume_from \<noteq> Some [] \<and>
                    resume_bound resume_from = None
                 then emit (InvalidResumeFrom (the resume_from)) st0 else st0);
          bound = resume_bound resume_from;
          cursor = find_sorted bound collection;
          st2 = emit (ProcessingCount (length cursor)) st1;
          (processed, batch, st3) = drain w limit batch_size dry_run cursor 0 [] st2;
          (processed1, st4) =
             (if batch \<noteq> []
              then (let (batch_processed, st') = process_documents_batch w dry_run batch st3
                    in (processed + batch_processed, st'))
              else (processed, st3))
      in (processed1, emit (DoneTotal processed1) st4))"

section \<open>Auxiliary definitions\<close>

text \<open>
  Every key and value of the table is a single character, so the table acts on a
  text character by character: \<open>subst_chars\<close> sends one character through the
  table, in its order.
\<close>

fun subst_chars :: "(nat \<times> nat) list \<Rightarrow> nat \<Rightarrow> nat" where
  "subst_chars [] x = x"
| "subst_chars ((s, d) # tab) x = subst_chars tab (if x = s then d else x)"

definition quote_table :: "(nat \<times> nat) list" where
  "quote_table =
     [(0x201C, 0x22), (0x201D, 0x22), (0x201E, 0x22), (0x201F, 0x22),
      (0xAB, 0x22), (0xBB, 0x22), (0xFF02, 0x22),
      (0x2018, 0x27), (0x2019, 0x27), (0x201A, 0x27), (0x201B, 0x27),
      (0x2039, 0x27), (0x203A, 0x27), (0xFF07, 0x27)]"

text \<open>
  What a task does with one document, apart from what it prints: the revision it
  builds, or nothing when the text is blank or the call fails.
\<close>

definition outcome :: "world \<Rightarrow> document \<Rightarrow> revision option" where
  "outcome w doc =
     (let txt = strip (text_of doc) in
      if txt = [] then None
      else case normalize_text_via_openai_compatible (service w (doc_id doc) txt) of
             Inl e \<Rightarrow> None
           | Inr n \<Rightarrow> Some (build_revision (clock w (doc_id doc)) doc (normalize_quote_characters n)))"

definition persist :: "world \<Rightarrow> document list \<Rightarrow> document list \<Rightarrow> document list" where
  "persist w docs coll =
     fold (\<lambda>d c. case outcome w d of None \<Rightarrow> c | Some r \<Rightarrow> update_one (doc_id d) r c) docs coll"

definition successes :: "world \<Rightarrow> document list \<Rightarrow> nat" where
  "successes w docs = length (filter (\<lambda>d. outcome w d \<noteq> None) docs)"

text \<open>
  What the tasks run for the documents \<open>docs\<close> do to one stored document: the
  revision built for the document of \<open>docs\<close> with the same identifier, if there is
  one, is pushed onto it.
\<close>

definition settle :: "world \<Rightarrow> document list \<Rightarrow> document \<Rightarrow> document" where
  "settle w docs d =
     (case find (\<lambda>x. doc_id x = doc_id d) docs of
        None \<Rightarrow> d
      | Some x \<Rightarrow> (case outcome w x of None \<Rightarrow> d | Some r \<Rightarrow> push_revision r d))"

text \<open>
  A document is eligible when the query without a bound yields it and the task does
  not skip it. For a text that is a string this means that \<^verbatim>\<open>strip()\<close> does not
  empty it and that the document has no revision of type \<^verbatim>\<open>'normalized'\<close>.
\<close>

definition eligible :: "document \<Rightarrow> bool" where
  "eligible d \<longleftrightarrow> matches_query None d \<and> strip (text_of d) \<noteq> []"

definition normalized_revisions :: "document \<Rightarrow> revision list" where
  "normalized_revisions d =
     filter (\<lambda>r. revision_type r = ''normalized'')
       (case revisions d of None \<Rightarrow> [] | Some rs \<Rightarrow> rs)"

text \<open>The totals of the \<^verbatim>\<open>Processed N documents...\<close> lines among the printed lines.\<close>

fun reported_totals :: "line list \<Rightarrow> nat list" where
  "reported_totals [] = []"
| "reported_totals (ProcessedProgress n # ls) = n # reported_totals ls"
| "reported_totals (l # ls) = reported_totals ls"

text \<open>
  The groups as the specification describes them: the cursor is cut into successive
  groups of \<open>k\<close> documents, as long as the limit is not reached when a group
  begins; \<open>group_totals\<close> lists the running total of successes after each full
  group. (\<open>successes\<close> counts the documents whose task returns \<^verbatim>\<open>True\<close>.)
\<close>

definition limit_reached :: "int option \<Rightarrow> nat \<Rightarrow> bool" where
  "limit_reached limit processed =
     (case limit of None \<Rightarrow> False | Some l \<Rightarrow> int processed \<ge> l)"

function group_totals :: "world \<Rightarrow> int option \<Rightarrow> nat \<Rightarrow> document list \<Rightarrow> nat \<Rightarrow> nat list" where
  "group_totals w limit k docs processed =
     (if k = 0 \<or> limit_reached limit processed \<or> length docs < k then []
      else (processed + successes w (take k docs)) #
           group_totals w limit k (drop k docs)
             (processed + successes w (take k docs)))"
  by pat_completeness auto
termination
  by (relation "measure (\<lambda>(w, limit, k, docs, processed). length docs)") auto

declare group_totals.simps [simp del]

section \<open>A sample collection and a sample service\<close>

text \<open>
  Six documents, stored out of identifier order: two are eligible (3 and 2), one has
  only spaces, one is normalized already, one has no text and one has a number as
  its text. The sample service fails with status 500 on document 3 and otherwise
  answers with the text it was sent, wrapped in spaces and closed by a curly quote.
\<close>

definition sample_revision :: revision where
  "sample_revision =
     \<lparr>revision_type = ''normalized'', normalized_at = 1700000000,
      source_fields = [''text''], revision_text = [72, 105]\<rparr>"

definition sample_collection :: "document list" where
  "sample_collection =
     [\<lparr>doc_id = 3, doc_text = Some (BString [104, 105]), revisions = None\<rparr>,
      \<lparr>doc_id = 1, doc_text = Some (BString [32, 32]), revisions = None\<rparr>,
      \<lparr>doc_id = 2, doc_text = Some (BString [0x201C, 97, 0x201D]), revisions = Some []\<rparr>,
      \<lparr>doc_id = 4, doc_text = Some (BString [72, 105]), revisions = Some [sample_revision]\<rparr>,
      \<lparr>doc_id = 5, doc_text = None, revisions = None\<rparr>,
      \<lparr>doc_id = 6, doc_text = Some (BOther [52, 50]), revisions = None\<rparr>]"

definition sample_world :: world where
  "sample_world =
     \<lparr>service = (\<lambda>i t. if i = 3 then Reply 500 [] None
                         else Reply 200 [] (Some ([32] @ t @ [0x201D, 32]))),
      clock = (\<lambda>i. 1700000000 + int i)\<rparr>"

definition sample_state :: pipeline_state where
  "sample_state = \<lparr>storage = sample_collection, printed = []\<rparr>"


text \<open>A service that answers every request with the text it was sent.\<close>

definition steady_world :: world where
  "steady_world = \<lparr>service = (\<lambda>i t. Reply 200 [] (Some t)), clock = (\<lambda>i. 1700000000)\<rparr>"

text \<open>Three eligible documents, and a service that times out on the first.\<close>

definition doc_a :: document where
  "doc_a = \<lparr>doc_id = 1, doc_text = Some (BString [97]), revisions = None\<rparr>"

definition doc_b :: document where
  "doc_b = \<lparr>doc_id = 2, doc_text = Some (BString [98]), revisions = None\<rparr>"

definition doc_c :: document where
  "doc_c = \<lparr>doc_id = 3, doc_text = Some (BString [99]), revisions = None\<rparr>"

definition three_documents :: "document list" where
  "three_documents = [doc_a, doc_b, doc_c]"

definition flaky_world :: world where
  "flaky_world =
     \<lparr>service = (\<lambda>i t. if i = 1 then TimedOut else Reply 200 [] (Some t)),
      clock = (\<lambda>i. 1700000000)\<rparr>"

text \<open>A document whose text is one no-break space.\<close>

definition nbsp_document :: document where
  "nbsp_document = \<lparr>doc_id = 7, doc_text = Some (BString [0xA0]), revisions = None\<rparr>"

text \<open>
  A document whose text is the array \<^verbatim>\<open>['a']\<close>, for which \<^verbatim>\<open>str()\<close> prints
  \<^verbatim>\<open>['a']\<close>.
\<close>

definition array_document :: document where
  "array_document =
     \<lparr>doc_id = 8, doc_text = Some (BArray [BString [97]] [91, 39, 97, 39, 93]),
      revisions = None\<rparr>"

section \<open>Properties of the text functions\<close>

lemma str_replace_single:
  "str_replace [c] [d] s = map (\<lambda>x. if x = c then d else x) s"
proof (induction s)
  case Nil
  show ?case by (subst str_replace.simps) simp
next
  case (Cons a s)
  then show ?case by (subst str_replace.simps) simp
qed

lemma fold_str_replace_single:
  "fold (\<lambda>(src, dst) out. str_replace src dst out) (map (\<lambda>(s, d). ([s], [d])) tab) t
     = map (subst_chars tab) t"
proof (induction tab arbitrary: t)
  case Nil
  show ?case by simp
next
  case (Cons p tab)
  obtain s d where p: "p = (s, d)" by (cases p)
  show ?case by (simp add: p str_replace_single Cons.IH comp_def)
qed

lemma subst_chars_fixed: "x \<notin> fst ` set tab \<Longrightarrow> subst_chars tab x = x"
  by (induction tab arbitrary: x) auto

lemma subst_chars_range: "subst_chars tab x = x \<or> subst_chars tab x \<in> snd ` set tab"
proof (induction tab arbitrary: x)
  case Nil
  show ?case by simp
next
  case (Cons p tab)
  obtain s d where p: "p = (s, d)" by (cases p)
  show ?case
  proof (cases "x = s")
    case True
    from Cons.IH [of d] show ?thesis by (auto simp: p True)
  next
    case False
    from Cons.IH [of x] show ?thesis by (auto simp: p False)
  qed
qed

lemma subst_chars_idem:
  assumes "snd ` set tab \<inter> fst ` set tab = {}"
  shows "subst_chars tab (subst_chars tab x) = subst_chars tab x"
proof (cases "subst_chars tab x = x")
  case True
  then show ?thesis by simp
next
  case False
  with subst_chars_range [of tab x] have "subst_chars tab x \<in> snd ` set tab" by simp
  with assms have "subst_chars tab x \<notin> fst ` set tab" by blast
  then show ?thesis by (rule subst_chars_fixed)
qed

lemma replacements_quote_table: "replacements = map (\<lambda>(s, d). ([s], [d])) quote_table"
  by (simp add: replacements_def quote_table_def)

lemma normalize_quote_characters_map:
  "normalize_quote_characters t = map (subst_chars quote_table) t"
  unfolding normalize_quote_characters_def replacements_quote_table fold_str_replace_single
  by simp

lemma quote_table_disjoint: "snd ` set quote_table \<inter> fst ` set quote_table = {}"
  by (simp add: quote_table_def)

text \<open>
  Claim C7. The quote normalizer is idempotent: normalizing a text that is already
  normalized changes nothing, for every text. \<open>normalize_quote_characters\<close> is a
  total function of its argument alone, with no error value in its result type.
\<close>

theorem normalize_quote_characters_idempotent:
  "normalize_quote_characters (normalize_quote_characters t) = normalize_quote_characters t"
  by (simp add: normalize_quote_characters_map subst_chars_idem [OF quote_table_disjoint])

section \<open>What a task, a group and the loop do to the storage\<close>

lemma storage_emit [simp]: "storage (emit l st) = storage st"
  by (simp add: emit_def)

lemma printed_emit [simp]: "printed (emit l st) = printed st @ [l]"
  by (simp add: emit_def)

lemma process_single_document_result:
  "fst (process_single_document w dry doc st) = (outcome w doc \<noteq> None)"
  by (simp add: process_single_document_def outcome_def Let_def split: sum.splits)

lemma process_single_document_storage:
  "storage (snd (process_single_document w dry doc st)) =
     (case outcome w doc of
        None \<Rightarrow> storage st
      | Some r \<Rightarrow> if dry then storage st else update_one (doc_id doc) r (storage st))"
  by (simp add: process_single_document_def outcome_def Let_def split: sum.splits)

lemma gather_results:
  "fst (gather w dry docs st) = map (\<lambda>d. outcome w d \<noteq> None) docs"
proof (induction docs arbitrary: st)
  case Nil
  show ?case by simp
next
  case (Cons d docs)
  show ?case
    using Cons.IH [of "snd (process_single_document w dry d st)"]
      process_single_document_result [of w dry d st]
    by (simp add: split_beta Let_def)
qed

lemma gather_storage_dry: "storage (snd (gather w True docs st)) = storage st"
proof (induction docs arbitrary: st)
  case Nil
  show ?case by simp
next
  case (Cons d docs)
  show ?case
    using Cons.IH [of "snd (process_single_document w True d st)"]
      process_single_document_storage [of w True d st]
    by (simp add: split_beta Let_def split: option.splits)
qed

lemma gather_storage_live:
  "storage (snd (gather w False docs st)) = persist w docs (storage st)"
proof (induction docs arbitrary: st)
  case Nil
  show ?case by (simp add: persist_def)
next
  case (Cons d docs)
  show ?case
    using Cons.IH [of "snd (process_single_document w False d st)"]
      process_single_document_storage [of w False d st]
    by (simp add: split_beta Let_def persist_def split: option.splits)
qed

lemma process_documents_batch_count:
  "fst (process_documents_batch w dry docs st) = successes w docs"
  using gather_results [of w dry docs "emit (ProcessingBatch (length docs)) st"]
  by (simp add: process_documents_batch_def successes_def split_beta filter_map comp_def)

lemma process_documents_batch_storage_dry:
  "storage (snd (process_documents_batch w True docs st)) = storage st"
  by (simp add: process_documents_batch_def split_beta gather_storage_dry)

lemma process_documents_batch_storage_live:
  "storage (snd (process_documents_batch w False docs st)) = persist w docs (storage st)"
  by (simp add: process_documents_batch_def split_beta gather_storage_live)

lemma drain_storage_dry:
  "storage (snd (snd (drain w limit bs True cursor p batch st))) = storage st"
proof (induction cursor arbitrary: p batch st)
  case Nil
  show ?case by simp
next
  case (Cons d cursor)
  show ?case
    by (simp add: Let_def split_beta Cons.IH process_documents_batch_storage_dry)
qed

text \<open>
  Claim C6. A run with dry-run enabled writes nothing: whatever the collection, the
  limit, the resume bound, the batch size and the replies of the service, the
  storage after the run is the storage before it.
\<close>

theorem dry_run_leaves_storage_unchanged:
  "storage (snd (process_documents coll limit resume_from bs True w)) = coll"
  by (simp add: process_documents_def Let_def split_beta drain_storage_dry
      process_documents_batch_storage_dry)

section \<open>The selector\<close>

text \<open>
  A match of \<^verbatim>\<open>\S\<close> needs a string, so on an array the two operators come to one
  test of its elements.
\<close>

lemma field_matches_text:
  "field_matches type_string v \<and> field_matches regex_nonspace v \<longleftrightarrow>
     (case v of
        BString s \<Rightarrow> list_ex (\<lambda>c. \<not> regex_space c) s
      | BArray xs r \<Rightarrow> list_ex regex_nonspace xs
      | BOther r \<Rightarrow> False)"
proof (cases v)
  case (BArray xs r)
  have "list_ex type_string xs" if "list_ex regex_nonspace xs"
  proof -
    from that obtain x where x: "x \<in> set xs" "regex_nonspace x" by (auto simp: list_ex_iff)
    from x(2) have "type_string x" by (cases x) simp_all
    with x(1) show ?thesis by (auto simp: list_ex_iff)
  qed
  with BArray show ?thesis by auto
qed simp_all

lemma regex_nonspace_string:
  "regex_nonspace x \<Longrightarrow> \<exists>s. x = BString s \<and> (\<exists>c \<in> set s. \<not> regex_space c)"
  by (cases x) (simp_all add: list_ex_iff)

lemma matches_query_text:
  assumes "matches_query bound d"
  shows "\<exists>s. (doc_text d = Some (BString s) \<or>
               (\<exists>xs r. doc_text d = Some (BArray xs r) \<and> BString s \<in> set xs)) \<and>
              (\<exists>c \<in> set s. \<not> regex_space c)"
proof -
  from assms obtain v where v: "doc_text d = Some v"
    "field_matches type_string v \<and> field_matches regex_nonspace v"
    by (auto simp: matches_query_def split: option.splits)
  show ?thesis
  proof (cases v)
    case (BString s)
    with v field_matches_text [of v] show ?thesis by (auto simp: list_ex_iff)
  next
    case (BArray xs r)
    with v(2) field_matches_text [of v] obtain x where x: "x \<in> set xs" "regex_nonspace x"
      by (auto simp: list_ex_iff)
    from regex_nonspace_string [OF x(2)] x(1) v(1) BArray show ?thesis by blast
  next
    case (BOther r)
    with v(2) field_matches_text [of v] show ?thesis by simp
  qed
qed

lemma matches_query_revisions:
  "matches_query bound d \<Longrightarrow> revisions d = Some rs \<Longrightarrow> r \<in> set rs \<Longrightarrow>
     revision_type r \<noteq> ''normalized''"
  by (auto simp: matches_query_def list_ex_iff split: option.splits bson_value.splits)

lemma matches_query_bound: "matches_query (Some x) d \<Longrightarrow> x < doc_id d"
  by (simp add: matches_query_def)

lemma set_find_sorted: "set (find_sorted bound coll) = {d \<in> set coll. matches_query bound d}"
  by (simp add: find_sorted_def)

lemma sorted_find_sorted: "sorted (map doc_id (find_sorted bound coll))"
  by (simp add: find_sorted_def)

lemma ObjectId_nonempty: "ObjectId x = Some b \<Longrightarrow> x \<noteq> []"
  by (auto simp: ObjectId_def split: if_splits)

lemma sample_find_sorted:
  "find_sorted None sample_collection = [sample_collection ! 2, sample_collection ! 0]"
  by (simp add: find_sorted_def sample_collection_def matches_query_def regex_space_def
      sample_revision_def)

lemma sample_ObjectId: "ObjectId ''000000000000000000000002'' = Some 2"
  by (simp add: ObjectId_def hex_digit_def)

lemma sample_find_sorted_resumed:
  "find_sorted (Some 2) sample_collection = [sample_collection ! 0]"
  by (simp add: find_sorted_def sample_collection_def matches_query_def regex_space_def
      sample_revision_def)

text \<open>
  What the query does ensure: a yielded document has a text that is a string, or an
  array holding a string, with a character outside the six of \<^verbatim>\<open>\s\<close>; and its
  \<^verbatim>\<open>revisions\<close>, if present, hold no entry of type \<^verbatim>\<open>'normalized'\<close>.
\<close>

lemma find_sorted_yields:
  assumes "d \<in> set (find_sorted bound coll)"
  shows "\<exists>s. (doc_text d = Some (BString s) \<or>
               (\<exists>xs r. doc_text d = Some (BArray xs r) \<and> BString s \<in> set xs)) \<and>
              (\<exists>c \<in> set s. \<not> regex_space c)"
    and "\<forall>rs. revisions d = Some rs \<longrightarrow> (\<forall>r \<in> set rs. revision_type r \<noteq> ''normalized'')"
proof -
  from assms have m: "matches_query bound d" by (simp add: set_find_sorted)
  from matches_query_text [OF m]
  show "\<exists>s. (doc_text d = Some (BString s) \<or>
               (\<exists>xs r. doc_text d = Some (BArray xs r) \<and> BString s \<in> set xs)) \<and>
              (\<exists>c \<in> set s. \<not> regex_space c)" .
  from matches_query_revisions [OF m]
  show "\<forall>rs. revisions d = Some rs \<longrightarrow> (\<forall>r \<in> set rs. revision_type r \<noteq> ''normalized'')"
    by blast
qed

text \<open>
  Claim C2. The query is to yield no document whose text is absent, not a string,
  empty or made of whitespace only; its comment says \<^verbatim>\<open>skip docs without text or
  with empty/whitespace-only text\<close>, and the task's own test for that is
  \<^verbatim>\<open>strip()\<close>. But \<^verbatim>\<open>\S\<close> in the query matches every character other than the six
  of \<^verbatim>\<open>\s\<close>, and the operators of the query look into arrays. So the query yields a
  document whose text is one no-break space, which \<^verbatim>\<open>strip()\<close> empties, and a
  document whose text is not a string but the array \<^verbatim>\<open>['a']\<close>.
\<close>

theorem selector_yields_unwanted_text:
  "find_sorted None [array_document, nbsp_document] = [nbsp_document, array_document] \<and>
   doc_text nbsp_document = Some (BString [0xA0]) \<and> strip [0xA0] = [] \<and>
   doc_text array_document = Some (BArray [BString [97]] [91, 39, 97, 39, 93])"
  by (simp add: find_sorted_def matches_query_def nbsp_document_def array_document_def
      regex_space_def strip_def isspace_def)

text \<open>
  Claim C3. When \<^verbatim>\<open>--resume-from\<close> is a valid identifier \<open>b\<close>, every document the
  query yields has an identifier strictly greater than \<open>b\<close>, and the documents come
  in ascending order of identifier.
\<close>

theorem resume_monotone:
  assumes "ObjectId x = Some b"
  shows "(\<forall>d \<in> set (find_sorted (resume_bound (Some x)) coll). b < doc_id d) \<and>
         sorted (map doc_id (find_sorted (resume_bound (Some x)) coll))"
proof -
  from assms have "resume_bound (Some x) = Some b"
    by (simp add: resume_bound_def ObjectId_nonempty)
  then show ?thesis
    by (simp add: set_find_sorted sorted_find_sorted matches_query_bound)
qed

theorem resume_monotone_witness:
  "ObjectId ''000000000000000000000002'' = Some 2 \<and>
   map doc_id (find_sorted (resume_bound (Some ''000000000000000000000002'')) sample_collection)
     = [3] \<and>
   sorted (map doc_id
     (find_sorted (resume_bound (Some ''000000000000000000000002'')) sample_collection))"
proof -
  have r: "resume_bound (Some ''000000000000000000000002'') = Some 2"
    by (simp add: resume_bound_def sample_ObjectId)
  have "map doc_id (find_sorted (Some 2) sample_collection) = [3]"
    by (simp only: sample_find_sorted_resumed) (simp add: sample_collection_def)
  with resume_monotone [OF sample_ObjectId, of sample_collection] sample_ObjectId r
  show ?thesis by simp
qed

section \<open>The text a task stores\<close>

lemma not_isspace_quotes: "\<not> isspace 0x22" "\<not> isspace 0x27"
  by (simp_all add: isspace_def)

lemma quote_char_not_space:
  assumes "\<not> isspace c"
  shows "\<not> isspace (subst_chars quote_table c)"
proof -
  have "snd ` set quote_table = {0x22, 0x27}"
    by (simp add: quote_table_def)
  with subst_chars_range [of quote_table c]
  have "subst_chars quote_table c = c \<or> subst_chars quote_table c = 0x22 \<or>
        subst_chars quote_table c = 0x27"
    by auto
  with assms not_isspace_quotes show ?thesis by metis
qed

lemma last_dropWhile: "dropWhile P xs \<noteq> [] \<Longrightarrow> last (dropWhile P xs) = last xs"
  by (induction xs) (auto split: if_splits)

lemma strip_edges:
  assumes "strip s \<noteq> []"
  shows "\<not> isspace (hd (strip s)) \<and> \<not> isspace (last (strip s))"
proof -
  define u where "u = dropWhile isspace s"
  define v where "v = dropWhile isspace (rev u)"
  have sv: "strip s = rev v" by (simp add: strip_def u_def v_def)
  with assms have v: "v \<noteq> []" by simp
  then have u: "u \<noteq> []" by (auto simp: v_def)
  have "\<not> isspace (hd v)" using v unfolding v_def by (rule hd_dropWhile)
  then have l: "\<not> isspace (last (strip s))" using v by (simp add: sv last_rev)
  have "last v = last (rev u)" using v unfolding v_def by (rule last_dropWhile)
  then have "last v = hd u" using u by (simp add: last_rev)
  moreover have "\<not> isspace (hd u)" using u unfolding u_def by (rule hd_dropWhile)
  ultimately have "\<not> isspace (hd (strip s))" using v by (simp add: sv hd_rev)
  with l show ?thesis by simp
qed

lemma normalize_quote_characters_edges:
  assumes "t \<noteq> []" "\<not> isspace (hd t)" "\<not> isspace (last t)"
  shows "\<not> isspace (hd (normalize_quote_characters t)) \<and>
         \<not> isspace (last (normalize_quote_characters t))"
  using assms
  by (simp add: normalize_quote_characters_map hd_map last_map quote_char_not_space)

lemma normalize_quote_characters_Nil: "normalize_quote_characters t = [] \<longleftrightarrow> t = []"
  by (simp add: normalize_quote_characters_map)

lemma normalize_text_Inr:
  "normalize_text_via_openai_compatible reply = Inr n \<longleftrightarrow>
     (\<exists>body c. reply = Reply 200 body (Some c) \<and> n = strip c)"
  by (cases reply)
     (auto simp: normalize_text_via_openai_compatible_def split: option.splits)

lemma process_single_document_True:
  assumes "process_single_document w dry_run doc st = (True, st')"
  shows "strip (text_of doc) \<noteq> [] \<and>
         (\<exists>n. normalize_text_via_openai_compatible
                 (service w (doc_id doc) (strip (text_of doc))) = Inr n \<and>
              st' = (if dry_run
                     then emit (DryRunPreview (doc_id doc) (strip (text_of doc))
                                  (normalize_quote_characters n))
                            (emit (SendingText (strip (text_of doc))) st)
                     else (emit (Updating (doc_id doc))
                             (emit (SendingText (strip (text_of doc))) st))
                          \<lparr>storage := update_one (doc_id doc)
                             (build_revision (clock w (doc_id doc)) doc
                                (normalize_quote_characters n))
                             (storage st)\<rparr>))"
proof (cases "strip (text_of doc) = []")
  case True
  with assms show ?thesis by (simp add: process_single_document_def)
next
  case False
  show ?thesis
  proof (cases "normalize_text_via_openai_compatible
                  (service w (doc_id doc) (strip (text_of doc)))")
    case (Inl e)
    with assms False show ?thesis by (simp add: process_single_document_def Let_def)
  next
    case (Inr n)
    with assms False show ?thesis
      by (simp add: process_single_document_def Let_def split: if_splits)
  qed
qed

text \<open>
  Claim C10. Whenever a task succeeds, the service answered with status 200 and a
  content string \<open>c\<close>, and the text of the revision pushed onto the document (or, in
  dry-run mode, the text printed as normalized) is the quote-normalized form of \<open>c\<close>
  with its leading and trailing whitespace stripped first. That text is empty or
  neither begins nor ends with a whitespace character.
\<close>

theorem stored_text_is_stripped_reply:
  assumes "process_single_document w dry_run doc st = (True, st')"
  shows "\<exists>body c.
           service w (doc_id doc) (strip (text_of doc)) = Reply 200 body (Some c) \<and>
           (if dry_run
            then storage st' = storage st \<and>
                 printed st' = printed st @
                   [SendingText (strip (text_of doc)),
                    DryRunPreview (doc_id doc) (strip (text_of doc))
                      (normalize_quote_characters (strip c))]
            else storage st' =
                   update_one (doc_id doc)
                     (build_revision (clock w (doc_id doc)) doc
                        (normalize_quote_characters (strip c)))
                     (storage st)) \<and>
           revision_text (build_revision (clock w (doc_id doc)) doc
                            (normalize_quote_characters (strip c)))
             = normalize_quote_characters (strip c) \<and>
           (normalize_quote_characters (strip c) = [] \<or>
            \<not> isspace (hd (normalize_quote_characters (strip c))) \<and>
            \<not> isspace (last (normalize_quote_characters (strip c))))"
proof -
  let ?txt = "strip (text_of doc)"
  from process_single_document_True [OF assms] obtain n where
    n: "normalize_text_via_openai_compatible (service w (doc_id doc) ?txt) = Inr n" and
    st': "st' = (if dry_run
                 then emit (DryRunPreview (doc_id doc) ?txt (normalize_quote_characters n))
                        (emit (SendingText ?txt) st)
                 else (emit (Updating (doc_id doc)) (emit (SendingText ?txt) st))
                      \<lparr>storage := update_one (doc_id doc)
                         (build_revision (clock w (doc_id doc)) doc
                            (normalize_quote_characters n))
                         (storage st)\<rparr>)"
    by blast
  from n obtain body c where
    reply: "service w (doc_id doc) ?txt = Reply 200 body (Some c)" and nc: "n = strip c"
    by (auto simp: normalize_text_Inr)
  have effect:
    "if dry_run
     then storage st' = storage st \<and>
          printed st' = printed st @
            [SendingText ?txt, DryRunPreview (doc_id doc) ?txt (normalize_quote_characters (strip c))]
     else storage st' =
            update_one (doc_id doc)
              (build_revision (clock w (doc_id doc)) doc (normalize_quote_characters (strip c)))
              (storage st)"
    by (simp add: st' nc)
  have edges:
    "normalize_quote_characters (strip c) = [] \<or>
     \<not> isspace (hd (normalize_quote_characters (strip c))) \<and>
     \<not> isspace (last (normalize_quote_characters (strip c)))"
  proof (cases "strip c = []")
    case True
    then show ?thesis by (simp add: normalize_quote_characters_Nil)
  next
    case False
    from strip_edges [OF False] normalize_quote_characters_edges [OF False]
    show ?thesis by blast
  qed
  have "revision_text (build_revision (clock w (doc_id doc)) doc
          (normalize_quote_characters (strip c))) = normalize_quote_characters (strip c)"
    by (simp add: build_revision_def)
  with reply effect edges show ?thesis by blast
qed

lemma sample_strip_text: "strip (text_of (sample_collection ! 2)) = [0x201C, 97, 0x201D]"
  by (simp add: sample_collection_def text_of_def strip_def isspace_def)

lemma sample_reply:
  "service sample_world 2 [0x201C, 97, 0x201D]
     = Reply 200 [] (Some [32, 0x201C, 97, 0x201D, 0x201D, 32])"
  by (simp add: sample_world_def)

lemma sample_strip_reply:
  "strip [32, 0x201C, 97, 0x201D, 0x201D, 32] = [0x201C, 97, 0x201D, 0x201D]"
  by (simp add: strip_def isspace_def)

lemma sample_quotes:
  "normalize_quote_characters [0x201C, 97, 0x201D, 0x201D] = [0x22, 97, 0x22, 0x22]"
  by (simp add: normalize_quote_characters_map quote_table_def)

lemma sample_doc_id: "doc_id (sample_collection ! 2) = 2"
  by (simp add: sample_collection_def)

lemma sample_task:
  "fst (process_single_document sample_world False (sample_collection ! 2) sample_state)"
  by (simp add: process_single_document_result outcome_def sample_strip_text sample_doc_id
      sample_reply normalize_text_via_openai_compatible_def)


theorem stored_text_is_stripped_reply_witness:
  "fst (process_single_document sample_world False (sample_collection ! 2) sample_state) \<and>
   (\<exists>body c.
      service sample_world 2 [0x201C, 97, 0x201D] = Reply 200 body (Some c) \<and>
      normalize_quote_characters (strip c) = [0x22, 97, 0x22, 0x22] \<and>
      storage (snd (process_single_document sample_world False (sample_collection ! 2)
                      sample_state))
        = update_one 2
            (build_revision (clock sample_world 2) (sample_collection ! 2)
               [0x22, 97, 0x22, 0x22])
            sample_collection)"
proof -
  have h: "process_single_document sample_world False (sample_collection ! 2) sample_state
             = (True, snd (process_single_document sample_world False (sample_collection ! 2)
                             sample_state))"
    using sample_task by (simp add: prod_eq_iff)
  from stored_text_is_stripped_reply [OF h] obtain body c where
    r: "service sample_world 2 [0x201C, 97, 0x201D] = Reply 200 body (Some c)" and
    s: "storage (snd (process_single_document sample_world False (sample_collection ! 2)
                        sample_state))
          = update_one 2
              (build_revision (clock sample_world 2) (sample_collection ! 2)
                 (normalize_quote_characters (strip c)))
              (storage sample_state)"
    unfolding sample_strip_text sample_doc_id by auto
  from r have "c = [32, 0x201C, 97, 0x201D, 0x201D, 32]" by (simp add: sample_reply)
  then have q: "normalize_quote_characters (strip c) = [0x22, 97, 0x22, 0x22]"
    by (simp only: sample_strip_reply sample_quotes)
  have "storage sample_state = sample_collection" by (simp add: sample_state_def)
  with r s q sample_task show ?thesis by (simp only:) blast
qed

section \<open>The writes of a group, document by document\<close>

lemma doc_id_push_revision [simp]: "doc_id (push_revision r d) = doc_id d"
  by (simp add: push_revision_def)

lemma doc_text_push_revision [simp]: "doc_text (push_revision r d) = doc_text d"
  by (simp add: push_revision_def)

lemma no_such_id:
  fixes d :: document and docs :: "document list"
  assumes "doc_id d \<notin> doc_id ` set docs" "x \<in> set docs"
  shows "doc_id x \<noteq> doc_id d"
proof
  assume "doc_id x = doc_id d"
  then have e: "doc_id d = doc_id x" by simp
  from e assms(2) have "doc_id d \<in> doc_id ` set docs" by (rule image_eqI)
  with assms(1) show False by simp
qed

lemma update_one_map:
  "distinct (map doc_id coll) \<Longrightarrow>
     update_one i r coll = map (\<lambda>d. if doc_id d = i then push_revision r d else d) coll"
proof (induction coll)
  case Nil
  show ?case by simp
next
  case (Cons d ds)
  show ?case
  proof (cases "doc_id d = i")
    case True
    from Cons.prems have "doc_id d \<notin> doc_id ` set ds" by simp
    then have "\<forall>x \<in> set ds. doc_id x \<noteq> i" using True no_such_id by blast
    then have "map (\<lambda>d. if doc_id d = i then push_revision r d else d) ds = ds"
      by (simp add: map_idI)
    with True show ?thesis by simp
  next
    case False
    with Cons show ?thesis by simp
  qed
qed

lemma map_doc_id_update_one [simp]: "map doc_id (update_one i r coll) = map doc_id coll"
  by (induction coll) auto

lemma find_None_ids:
  fixes d :: document and docs :: "document list"
  assumes "doc_id d \<notin> doc_id ` set docs"
  shows "find (\<lambda>x. doc_id x = doc_id d) docs = None"
  using no_such_id [OF assms] by (simp add: find_None_iff)

lemma persist_Cons:
  "persist w (x # xs) coll =
     persist w xs (case outcome w x of None \<Rightarrow> coll | Some r \<Rightarrow> update_one (doc_id x) r coll)"
  by (simp add: persist_def)

lemma persist_Nil [simp]: "persist w [] coll = coll"
  by (simp add: persist_def)

lemma persist_append: "persist w (xs @ ys) coll = persist w ys (persist w xs coll)"
  by (simp add: persist_def)

lemma persist_map:
  "distinct (map doc_id coll) \<Longrightarrow> distinct (map doc_id docs) \<Longrightarrow>
     persist w docs coll = map (settle w docs) coll"
proof (induction docs arbitrary: coll)
  case Nil
  show ?case by (simp add: settle_def)
next
  case (Cons x xs)
  from Cons.prems have fresh: "doc_id x \<notin> doc_id ` set xs" and dxs: "distinct (map doc_id xs)"
    by auto
  show ?case
  proof (cases "outcome w x")
    case None
    have "settle w (x # xs) d = settle w xs d" for d
      using fresh None by (cases "doc_id x = doc_id d") (auto simp: settle_def find_None_ids)
    with None Cons.IH [OF Cons.prems(1) dxs] show ?thesis by (simp add: persist_Cons)
  next
    case (Some r)
    let ?c = "update_one (doc_id x) r coll"
    from Cons.prems(1) have dc: "distinct (map doc_id ?c)" by simp
    have "settle w xs (if doc_id d = doc_id x then push_revision r d else d)
            = settle w (x # xs) d" for d
      using fresh Some by (cases "doc_id x = doc_id d") (auto simp: settle_def find_None_ids)
    then have "map (settle w xs) (map (\<lambda>d. if doc_id d = doc_id x then push_revision r d else d) coll)
                 = map (settle w (x # xs)) coll"
      by simp
    with Some Cons.IH [OF dc dxs] update_one_map [OF Cons.prems(1), of "doc_id x" r]
    show ?thesis by (simp add: persist_Cons)
  qed
qed

section \<open>Failure of one task of a group\<close>

lemma find_by_id:
  fixes s :: document and docs :: "document list"
  assumes "distinct (map doc_id docs)" "s \<in> set docs"
  shows "find (\<lambda>y. doc_id y = doc_id s) docs = Some s"
  using assms
proof (induction docs)
  case Nil
  then show ?case by simp
next
  case (Cons a docs)
  show ?case
  proof (cases "a = s")
    case True
    then show ?thesis by simp
  next
    case False
    with Cons.prems have s: "s \<in> set docs" by simp
    from Cons.prems have "doc_id a \<notin> doc_id ` set docs" by simp
    from no_such_id [OF this s] have "doc_id a \<noteq> doc_id s" by simp
    moreover from Cons.prems have "distinct (map doc_id docs)" by simp
    ultimately show ?thesis using Cons.IH s by simp
  qed
qed

lemma settle_at:
  fixes s x :: document
  assumes "distinct (map doc_id docs)" "s \<in> set docs" "doc_id x = doc_id s"
  shows "settle w docs x = (case outcome w s of None \<Rightarrow> x | Some r \<Rightarrow> push_revision r x)"
  using find_by_id [OF assms(1,2)] assms(3) by (simp add: settle_def)


lemma outcome_Inr:
  fixes s :: document
  shows "strip (text_of s) \<noteq> [] \<Longrightarrow>
   normalize_text_via_openai_compatible (service w (doc_id s) (strip (text_of s))) = Inr n \<Longrightarrow>
   outcome w s = Some (build_revision (clock w (doc_id s)) s (normalize_quote_characters n))"
  by (simp add: outcome_def Let_def)


lemma sample_ids: "map doc_id sample_collection = [3, 1, 2, 4, 5, 6]"
  by (simp add: sample_collection_def)

lemma sample_failed_doc:
  "doc_id (sample_collection ! 0) = 3" "strip (text_of (sample_collection ! 0)) = [104, 105]"
  by (simp_all add: sample_collection_def text_of_def strip_def isspace_def)





section \<open>A whole run without a limit\<close>

lemma successes_append: "successes w (xs @ ys) = successes w xs + successes w ys"
  by (simp add: successes_def)

lemma successes_Nil [simp]: "successes w [] = 0"
  by (simp add: successes_def)

lemma persist_single: "persist w (d # xs) c = persist w xs (persist w [d] c)"
  by (simp add: persist_def)

lemma successes_single: "successes w (d # xs) = successes w [d] + successes w xs"
  by (simp add: successes_def)

lemma drain_None_live:
  "drain w None bs False cursor p batch st = (p', batch', st') \<Longrightarrow>
     persist w batch' (storage st') = persist w (batch @ cursor) (storage st) \<and>
     p' + successes w batch' = p + successes w (batch @ cursor)"
proof (induction cursor arbitrary: p batch st)
  case Nil
  then show ?case by simp
next
  case (Cons d cursor)
  show ?case
  proof (cases "int (length (batch @ [d])) \<ge> bs")
    case True
    obtain n st1 where b: "process_documents_batch w False (batch @ [d]) st = (n, st1)"
      by (cases "process_documents_batch w False (batch @ [d]) st") auto
    define st2 where
      "st2 = (if bs > 0 \<and> int (p + n) mod bs = 0
              then emit (ProcessedProgress (p + n)) st1 else st1)"
    from Cons.prems True b
    have "drain w None bs False cursor (p + n) [] st2 = (p', batch', st')"
      unfolding st2_def by (simp add: Let_def split del: if_split)
    from Cons.IH [OF this]
    have "persist w batch' (storage st') = persist w cursor (storage st2)"
      and "p' + successes w batch' = p + n + successes w cursor"
      by simp_all
    moreover have "storage st1 = persist w (batch @ [d]) (storage st)"
      using process_documents_batch_storage_live [of w "batch @ [d]" st] b by simp
    then have "storage st2 = persist w (batch @ [d]) (storage st)"
      by (simp add: st2_def)
    moreover have "n = successes w (batch @ [d])"
      using process_documents_batch_count [of w False "batch @ [d]" st] b by simp
    ultimately show ?thesis
      by (simp add: persist_append successes_append persist_single [of w d cursor]
          successes_single [of w d cursor])
  next
    case False
    with Cons.prems
    have "drain w None bs False cursor p (batch @ [d]) st = (p', batch', st')"
      by (simp add: Let_def)
    from Cons.IH [OF this] show ?thesis by simp
  qed
qed

lemma process_documents_live:
  "storage (snd (process_documents coll None resume_from bs False w))
     = persist w (find_sorted (resume_bound resume_from) coll) coll \<and>
   fst (process_documents coll None resume_from bs False w)
     = successes w (find_sorted (resume_bound resume_from) coll)"
proof -
  define st1 where
    "st1 = (if resume_from \<noteq> None \<and> resume_from \<noteq> Some [] \<and> resume_bound resume_from = None
            then emit (InvalidResumeFrom (the resume_from)) \<lparr>storage = coll, printed = []\<rparr>
            else \<lparr>storage = coll, printed = []\<rparr>)"
  define cursor where "cursor = find_sorted (resume_bound resume_from) coll"
  define st2 where "st2 = emit (ProcessingCount (length cursor)) st1"
  obtain p batch st3 where dr: "drain w None bs False cursor 0 [] st2 = (p, batch, st3)"
    by (cases "drain w None bs False cursor 0 [] st2") auto
  have s2: "storage st2 = coll" by (simp add: st2_def st1_def)
  from drain_None_live [OF dr] s2
  have inv: "persist w batch (storage st3) = persist w cursor coll"
    "p + successes w batch = successes w cursor"
    by simp_all
  have run: "process_documents coll None resume_from bs False w =
     (let (processed1, st4) =
             (if batch \<noteq> []
              then (let (batch_processed, st') = process_documents_batch w False batch st3
                    in (p + batch_processed, st'))
              else (p, st3))
      in (processed1, emit (DoneTotal processed1) st4))"
    unfolding process_documents_def Let_def
    using dr by (simp add: st1_def st2_def cursor_def Let_def)
  show ?thesis
  proof (cases "batch = []")
    case True
    with run inv show ?thesis by (simp add: cursor_def)
  next
    case False
    with run inv show ?thesis
      by (simp add: cursor_def split_beta process_documents_batch_storage_live
          process_documents_batch_count)
  qed
qed

section \<open>The storage after a run\<close>

lemma distinct_ids_find_sorted:
  "distinct (map doc_id coll) \<Longrightarrow> distinct (map doc_id (find_sorted b coll))"
  by (simp add: find_sorted_def distinct_map distinct_map_filter inj_on_def)

lemma same_id_same_doc:
  fixes x y :: document
  assumes "distinct (map doc_id coll)" "x \<in> set coll" "y \<in> set coll" "doc_id x = doc_id y"
  shows "x = y"
  using assms by (auto simp: distinct_map inj_on_def)

lemma settle_cursor:
  fixes d :: document
  assumes ids: "distinct (map doc_id coll)" and d: "d \<in> set coll"
  shows "settle w (find_sorted b coll) d =
           (if matches_query b d
            then (case outcome w d of None \<Rightarrow> d | Some r \<Rightarrow> push_revision r d)
            else d)"
proof (cases "matches_query b d")
  case True
  with d have "d \<in> set (find_sorted b coll)" by (simp add: set_find_sorted)
  from settle_at [OF distinct_ids_find_sorted [OF ids] this refl] True
  show ?thesis by simp
next
  case False
  have "find (\<lambda>x. doc_id x = doc_id d) (find_sorted b coll) = None"
  proof (rule ccontr)
    assume "find (\<lambda>x. doc_id x = doc_id d) (find_sorted b coll) \<noteq> None"
    then obtain x where "x \<in> set (find_sorted b coll)" "doc_id x = doc_id d"
      by (auto simp: find_None_iff)
    then have "x \<in> set coll" "matches_query b x" "doc_id x = doc_id d"
      by (simp_all add: set_find_sorted)
    with same_id_same_doc [OF ids _ d] False show False by blast
  qed
  with False show ?thesis by (simp add: settle_def)
qed

lemma run_storage:
  assumes ids: "distinct (map doc_id coll)"
  shows "storage (snd (process_documents coll None resume_from bs False w))
           = map (\<lambda>d. if matches_query (resume_bound resume_from) d
                       then (case outcome w d of None \<Rightarrow> d | Some r \<Rightarrow> push_revision r d)
                       else d) coll"
proof -
  let ?b = "resume_bound resume_from"
  have "storage (snd (process_documents coll None resume_from bs False w))
          = map (settle w (find_sorted ?b coll)) coll"
    using process_documents_live [of coll resume_from bs w]
    by (simp add: persist_map [OF ids distinct_ids_find_sorted [OF ids]])
  also have "\<dots> = map (\<lambda>d. if matches_query ?b d
                       then (case outcome w d of None \<Rightarrow> d | Some r \<Rightarrow> push_revision r d)
                       else d) coll"
    by (rule map_cong) (simp_all add: settle_cursor [OF ids])
  finally show ?thesis .
qed


lemma outcome_blank: "strip (text_of d) = [] \<Longrightarrow> outcome w d = None"
  by (simp add: outcome_def)

lemma outcome_success:
  fixes d :: document
  assumes "strip (text_of d) \<noteq> []"
    and "service w (doc_id d) (strip (text_of d)) = Reply 200 body (Some c)"
  shows "outcome w d
           = Some (build_revision (clock w (doc_id d)) d (normalize_quote_characters (strip c)))"
  using assms by (simp add: outcome_def normalize_text_via_openai_compatible_def)

lemma matches_query_pushed:
  "revision_type r = ''normalized'' \<Longrightarrow> \<not> matches_query b (push_revision r d)"
  by (simp add: matches_query_def push_revision_def list_ex_iff)

lemma normalized_revisions_pushed:
  assumes "matches_query b d" "revision_type r = ''normalized''"
  shows "normalized_revisions (push_revision r d) = [r]"
proof -
  have "filter (\<lambda>r. revision_type r = ''normalized'')
          (case revisions d of None \<Rightarrow> [] | Some rs \<Rightarrow> rs) = []"
    using assms(1)
    by (auto simp: matches_query_def list_ex_iff filter_empty_conv split: option.splits)
  with assms(2) show ?thesis
    by (simp add: normalized_revisions_def push_revision_def)
qed

lemma revision_type_build [simp]:
  "revision_type (build_revision now d t) = ''normalized''"
  by (simp add: build_revision_def)

text \<open>The storage after a first run in which every eligible document succeeds.\<close>

lemma first_run_storage:
  assumes ids: "distinct (map doc_id coll)"
    and ok: "\<forall>d \<in> set coll. eligible d \<longrightarrow>
               (\<exists>body c. service w (doc_id d) (strip (text_of d)) = Reply 200 body (Some c))"
  shows "\<forall>d1 \<in> set (storage (snd (process_documents coll None None bs False w))).
           \<not> eligible d1"
    and "\<forall>d \<in> set coll. eligible d \<longrightarrow>
           (\<exists>r. revision_type r = ''normalized'' \<and>
                push_revision r d
                  \<in> set (storage (snd (process_documents coll None None bs False w))))"
    and "\<forall>d1 \<in> set (storage (snd (process_documents coll None None bs False w))).
           matches_query None d1 \<longrightarrow> d1 \<in> set coll \<and> \<not> eligible d1"
proof -
  define g where
    "g = (\<lambda>d. if matches_query None d
              then (case outcome w d of None \<Rightarrow> d | Some r \<Rightarrow> push_revision r d)
              else d)"
  have st: "storage (snd (process_documents coll None None bs False w)) = map g coll"
    using run_storage [OF ids, of None bs w] by (simp add: resume_bound_def g_def)
  have el: "\<exists>r. revision_type r = ''normalized'' \<and> g d = push_revision r d"
    if "d \<in> set coll" "eligible d" for d
  proof -
    from that ok obtain body c where
      "service w (doc_id d) (strip (text_of d)) = Reply 200 body (Some c)" by blast
    from outcome_success [OF _ this] that(2)
    have o: "outcome w d = Some (build_revision (clock w (doc_id d)) d
                                   (normalize_quote_characters (strip c)))"
      by (simp add: eligible_def)
    from that(2) have "matches_query None d" by (simp add: eligible_def)
    with o have "g d = push_revision (build_revision (clock w (doc_id d)) d
                                        (normalize_quote_characters (strip c))) d"
      by (simp add: g_def)
    moreover have "revision_type (build_revision (clock w (doc_id d)) d
                                    (normalize_quote_characters (strip c))) = ''normalized''"
      by simp
    ultimately show ?thesis by blast
  qed
  have ne: "g d = d" if "\<not> eligible d" for d
    using that by (auto simp: g_def eligible_def outcome_blank)
  have key: "(matches_query None (g d) \<longrightarrow> g d = d \<and> \<not> eligible d) \<and> \<not> eligible (g d)"
    if d: "d \<in> set coll" for d
  proof (cases "eligible d")
    case True
    from el [OF d True] obtain r where r: "revision_type r = ''normalized''" "g d = push_revision r d"
      by blast
    from matches_query_pushed [OF r(1), of None d] r(2) show ?thesis
      by (simp add: eligible_def)
  next
    case False
    from ne [OF False] False show ?thesis by simp
  qed
  show "\<forall>d1 \<in> set (storage (snd (process_documents coll None None bs False w))).
           \<not> eligible d1"
    unfolding st using key by auto
  show "\<forall>d \<in> set coll. eligible d \<longrightarrow>
           (\<exists>r. revision_type r = ''normalized'' \<and>
                push_revision r d
                  \<in> set (storage (snd (process_documents coll None None bs False w))))"
  proof (intro ballI impI)
    fix d assume d: "d \<in> set coll" "eligible d"
    from el [OF d] obtain r where r: "revision_type r = ''normalized''" "g d = push_revision r d"
      by blast
    from d(1) have "g d \<in> set (map g coll)" by simp
    with r show "\<exists>r. revision_type r = ''normalized'' \<and>
                push_revision r d
                  \<in> set (storage (snd (process_documents coll None None bs False w)))"
      unfolding st by auto
  qed
  show "\<forall>d1 \<in> set (storage (snd (process_documents coll None None bs False w))).
           matches_query None d1 \<longrightarrow> d1 \<in> set coll \<and> \<not> eligible d1"
  proof (intro ballI impI)
    fix d1
    assume "d1 \<in> set (storage (snd (process_documents coll None None bs False w)))"
      and m: "matches_query None d1"
    then obtain d where d: "d \<in> set coll" "d1 = g d" unfolding st by auto
    from key [OF d(1)] m d(2) have "g d = d" "\<not> eligible d" by simp_all
    with d show "d1 \<in> set coll \<and> \<not> eligible d1" by simp
  qed
qed

section \<open>Eligible documents\<close>

lemma regex_space_isspace: "regex_space c \<Longrightarrow> isspace c"
  by (auto simp: regex_space_def isspace_def)

lemma strip_blank:
  assumes "\<forall>c \<in> set s. isspace c"
  shows "strip s = []"
proof -
  from assms have d: "dropWhile isspace s = []" by simp
  show ?thesis unfolding strip_def d by simp
qed

lemma nonblank_has_match:
  assumes "strip s \<noteq> []"
  shows "list_ex (\<lambda>c. \<not> regex_space c) s"
proof -
  from assms strip_blank [of s] obtain c where "c \<in> set s" "\<not> isspace c" by blast
  with regex_space_isspace [of c] show ?thesis by (auto simp: list_ex_iff)
qed

text \<open>
  For a text that is a string, eligibility does not depend on the query's own notion
  of whitespace: the document is eligible exactly when \<^verbatim>\<open>strip()\<close> does not empty
  the text and there is no revision of type \<^verbatim>\<open>'normalized'\<close>. A text that is an
  array makes the document eligible when the query yields it and \<^verbatim>\<open>strip()\<close> does
  not empty what \<^verbatim>\<open>str()\<close> prints for the array. No other document is eligible.
\<close>

lemma normalized_revisions_empty:
  "normalized_revisions d = [] \<longleftrightarrow>
     (case revisions d of
        None \<Rightarrow> True
      | Some rs \<Rightarrow> \<not> list_ex (\<lambda>r. revision_type r = ''normalized'') rs)"
  by (auto simp: normalized_revisions_def filter_empty_conv list_ex_iff split: option.splits)

lemma eligible_string:
  assumes "doc_text d = Some (BString s)"
  shows "eligible d \<longleftrightarrow> strip s \<noteq> [] \<and> normalized_revisions d = []"
  using assms nonblank_has_match [of s]
  by (auto simp: eligible_def matches_query_def text_of_def normalized_revisions_empty)

lemma eligible_array:
  assumes "doc_text d = Some (BArray xs r)"
  shows "eligible d \<longleftrightarrow>
           list_ex regex_nonspace xs \<and> strip r \<noteq> [] \<and> normalized_revisions d = []"
  using assms field_matches_text [of "BArray xs r"]
  by (auto simp: eligible_def matches_query_def text_of_def normalized_revisions_empty)

lemma eligible_iff:
  "eligible d \<longleftrightarrow>
     ((\<exists>s. doc_text d = Some (BString s) \<and> strip s \<noteq> []) \<or>
      (\<exists>xs r. doc_text d = Some (BArray xs r) \<and> list_ex regex_nonspace xs \<and> strip r \<noteq> [])) \<and>
     normalized_revisions d = []"
proof (cases "doc_text d")
  case None
  then show ?thesis by (simp add: eligible_def matches_query_def)
next
  case (Some v)
  show ?thesis
  proof (cases v)
    case (BString s)
    with Some eligible_string [of d s] show ?thesis by auto
  next
    case (BArray xs r)
    with Some eligible_array [of d xs r] show ?thesis by auto
  next
    case (BOther r)
    with Some show ?thesis by (simp add: eligible_def matches_query_def)
  qed
qed

text \<open>
  The query's class of whitespace is smaller than that of \<^verbatim>\<open>strip()\<close>: a text made
  of a no-break space passes the query, and the task skips it without a request.
\<close>

lemma nbsp_selected_and_skipped:
  "matches_query None nbsp_document" "\<not> eligible nbsp_document"
  "process_single_document w dry nbsp_document st = (False, st)"
proof -
  have s: "strip (text_of nbsp_document) = []"
    by (simp add: nbsp_document_def text_of_def strip_def isspace_def)
  show "matches_query None nbsp_document"
    by (simp add: nbsp_document_def matches_query_def regex_space_def)
  show "\<not> eligible nbsp_document" by (simp add: eligible_def s)
  show "process_single_document w dry nbsp_document st = (False, st)"
    by (simp add: process_single_document_def s)
qed

text \<open>
  A text that is an array holding a string passes the query as well; the task then
  sends what \<^verbatim>\<open>str()\<close> prints for the array and stores the answer as a revision.
\<close>

lemma array_selected_and_normalized:
  "eligible array_document"
  "storage (snd (process_documents [array_document] None None 1 False steady_world))
     = [push_revision (build_revision 1700000000 array_document [91, 39, 97, 39, 93])
          array_document]"
proof -
  have t: "strip (text_of array_document) = [91, 39, 97, 39, 93]"
    by (simp add: array_document_def text_of_def strip_def isspace_def)
  have t2: "strip [91, 39, 97, 39, 93] = [91, 39, 97, 39, 93]"
    by (simp add: strip_def isspace_def)
  have q: "normalize_quote_characters [91, 39, 97, 39, 93] = [91, 39, 97, 39, 93]"
    by (simp add: normalize_quote_characters_map quote_table_def)
  have m: "matches_query None array_document"
    by (simp add: array_document_def matches_query_def regex_space_def)
  from m t show "eligible array_document" by (simp add: eligible_def)
  have i: "doc_id array_document = 8" by (simp add: array_document_def)
  have n: "normalize_text_via_openai_compatible
             (service steady_world (doc_id array_document) (strip (text_of array_document)))
           = Inr [91, 39, 97, 39, 93]"
    by (simp add: steady_world_def normalize_text_via_openai_compatible_def t t2)
  have ne: "strip (text_of array_document) \<noteq> []" by (simp add: t)
  have c: "clock steady_world (doc_id array_document) = 1700000000"
    by (simp add: steady_world_def)
  from outcome_Inr [OF ne n] have o: "outcome steady_world array_document
             = Some (build_revision 1700000000 array_document [91, 39, 97, 39, 93])"
    by (simp only: q c)
  have "distinct (map doc_id [array_document])" by simp
  from run_storage [OF this, of None 1 steady_world]
  have "storage (snd (process_documents [array_document] None None 1 False steady_world))
      = map (\<lambda>d. if matches_query (resume_bound None) d
                  then (case outcome steady_world d of None \<Rightarrow> d | Some r \<Rightarrow> push_revision r d)
                  else d) [array_document]" .
  also have "\<dots> = [push_revision (build_revision 1700000000 array_document [91, 39, 97, 39, 93])
               array_document]"
    by (simp only: list.map resume_bound_def option.case m o if_True)
  finally show "storage (snd (process_documents [array_document] None None 1 False steady_world))
          = [push_revision (build_revision 1700000000 array_document [91, 39, 97, 39, 93])
               array_document]" .
qed

section \<open>Running twice\<close>

lemma map_doc_id_run:
  assumes ids: "distinct (map doc_id coll)"
  shows "map doc_id (storage (snd (process_documents coll None resume_from bs False w)))
           = map doc_id coll"
  unfolding run_storage [OF ids]
  by (induction coll) (auto split: option.splits)

lemma second_run_idle:
  assumes ids: "distinct (map doc_id coll1)"
    and idle: "\<forall>d \<in> set coll1. \<not> eligible d"
  shows "storage (snd (process_documents coll1 None None bs False w)) = coll1"
    and "fst (process_documents coll1 None None bs False w) = 0"
proof -
  have none: "outcome w d = None" if "d \<in> set coll1" "matches_query None d" for d
    using that idle by (auto simp: eligible_def outcome_blank)
  have "map (\<lambda>d. if matches_query (resume_bound None) d
                  then (case outcome w d of None \<Rightarrow> d | Some r \<Rightarrow> push_revision r d)
                  else d) coll1 = map (\<lambda>d. d) coll1"
    by (rule map_cong) (auto simp: resume_bound_def none)
  then show "storage (snd (process_documents coll1 None None bs False w)) = coll1"
    using run_storage [OF ids, of None bs w] by simp
  have "filter (\<lambda>d. outcome w d \<noteq> None) (find_sorted None coll1) = []"
    by (auto simp: filter_empty_conv set_find_sorted none)
  then show "fst (process_documents coll1 None None bs False w) = 0"
    using process_documents_live [of coll1 None bs w]
    by (simp add: successes_def resume_bound_def)
qed

text \<open>
  Claim C1. Take a collection with distinct identifiers and a live run without limit
  or resume bound in which the service answers every eligible document with status
  200 and a content string. After that run every eligible document is stored with
  exactly one revision of type \<^verbatim>\<open>'normalized'\<close> (and its text untouched); the query
  of a second run yields none of them; and a second run over the resulting storage,
  with any batch size and any service, leaves the storage as it is and processes
  zero documents.
\<close>

theorem run_twice:
  assumes ids: "distinct (map doc_id coll)"
    and ok: "\<forall>d \<in> set coll. eligible d \<longrightarrow>
               (\<exists>body c. service w (doc_id d) (strip (text_of d)) = Reply 200 body (Some c))"
  shows "(\<forall>d \<in> set coll. eligible d \<longrightarrow>
            (\<exists>d1 \<in> set (storage (snd (process_documents coll None None bs False w))).
               doc_id d1 = doc_id d \<and> doc_text d1 = doc_text d \<and>
               length (normalized_revisions d1) = 1)) \<and>
         (\<forall>d \<in> set coll. eligible d \<longrightarrow>
            doc_id d \<notin> doc_id ` set (find_sorted None
                          (storage (snd (process_documents coll None None bs False w))))) \<and>
         storage (snd (process_documents
                         (storage (snd (process_documents coll None None bs False w)))
                         None None bs2 False w2))
           = storage (snd (process_documents coll None None bs False w)) \<and>
         fst (process_documents
                (storage (snd (process_documents coll None None bs False w)))
                None None bs2 False w2) = 0"
proof -
  define coll1 where "coll1 = storage (snd (process_documents coll None None bs False w))"
  note fr = first_run_storage [OF ids ok, of bs, folded coll1_def]
  have ids1: "distinct (map doc_id coll1)"
    using map_doc_id_run [OF ids, of None bs w] ids by (simp add: coll1_def)
  have a: "\<exists>d1 \<in> set coll1. doc_id d1 = doc_id d \<and> doc_text d1 = doc_text d \<and>
             length (normalized_revisions d1) = 1"
    if d: "d \<in> set coll" "eligible d" for d
  proof -
    from fr(2) d obtain r where r: "revision_type r = ''normalized''"
      "push_revision r d \<in> set coll1" by blast
    from d(2) have "matches_query None d" by (simp add: eligible_def)
    from normalized_revisions_pushed [OF this r(1)] r(2) show ?thesis
      by (intro bexI [of _ "push_revision r d"]) simp_all
  qed
  have b: "doc_id d \<notin> doc_id ` set (find_sorted None coll1)"
    if d: "d \<in> set coll" "eligible d" for d
  proof
    assume "doc_id d \<in> doc_id ` set (find_sorted None coll1)"
    then obtain x where x: "x \<in> set coll1" "matches_query None x" "doc_id d = doc_id x"
      by (auto simp: set_find_sorted)
    from fr(3) x have "x \<in> set coll" "\<not> eligible x" by blast+
    with same_id_same_doc [OF ids d(1) \<open>x \<in> set coll\<close> x(3)] d(2) show False by simp
  qed
  from second_run_idle [OF ids1 fr(1), of bs2 w2] a b show ?thesis
    unfolding coll1_def by blast
qed

lemma sample_eligible: "eligible (sample_collection ! 0)"
  by (simp add: eligible_def matches_query_def sample_collection_def regex_space_def
      text_of_def strip_def isspace_def)

theorem run_twice_witness:
  "distinct (map doc_id sample_collection) \<and>
   eligible (sample_collection ! 0) \<and>
   (\<exists>d1 \<in> set (storage (snd (process_documents sample_collection None None 20 False
                                steady_world))).
      doc_id d1 = 3 \<and> length (normalized_revisions d1) = 1) \<and>
   3 \<notin> doc_id ` set (find_sorted None
           (storage (snd (process_documents sample_collection None None 20 False
                            steady_world)))) \<and>
   storage (snd (process_documents
                   (storage (snd (process_documents sample_collection None None 20 False
                                    steady_world)))
                   None None 20 False steady_world))
     = storage (snd (process_documents sample_collection None None 20 False steady_world)) \<and>
   fst (process_documents
          (storage (snd (process_documents sample_collection None None 20 False
                           steady_world)))
          None None 20 False steady_world) = 0"
proof -
  have ids: "distinct (map doc_id sample_collection)" by (simp add: sample_ids)
  have ok: "\<forall>d \<in> set sample_collection. eligible d \<longrightarrow>
              (\<exists>body c. service steady_world (doc_id d) (strip (text_of d))
                           = Reply 200 body (Some c))"
    by (simp add: steady_world_def)
  have m: "sample_collection ! 0 \<in> set sample_collection"
    by (simp add: sample_collection_def)
  have i: "doc_id (sample_collection ! 0) = 3" by (simp add: sample_failed_doc)
  from run_twice [OF ids ok, of 20 20 steady_world] m sample_eligible i ids
  show ?thesis by (metis (no_types, lifting))
qed

section \<open>The limit\<close>

lemma steady_outcome:
  "outcome steady_world d =
     (if strip (text_of d) = [] then None
      else Some (build_revision 1700000000 d
                   (normalize_quote_characters (strip (strip (text_of d))))))"
  by (simp add: outcome_def steady_world_def normalize_text_via_openai_compatible_def Let_def)

lemma sample_texts:
  "strip (text_of (sample_collection ! 2)) \<noteq> []" "strip (text_of (sample_collection ! 0)) \<noteq> []"
  by (simp_all add: sample_strip_text sample_failed_doc)

lemma sample_steady_successes:
  "successes steady_world [sample_collection ! 2, sample_collection ! 0] = 2"
  by (simp add: successes_def steady_outcome sample_texts)

text \<open>
  Claim C4. With a limit \<open>L\<close> a run is to process at most \<open>L\<close> documents. The loop
  tests the limit against \<open>processed\<close>, which grows only when a group completes,
  so a group begun below the limit is processed whole: with limit 1, batch size 2
  and two eligible documents whose calls both succeed, the run processes 2.
\<close>

theorem limit_overrun:
  "fst (process_documents sample_collection (Some 1) None 2 False steady_world) = 2"
  by (simp add: process_documents_def resume_bound_def sample_find_sorted Let_def split_beta
      process_documents_batch_count sample_steady_successes)

section \<open>Progress reports after groups\<close>

lemma reported_totals_append [simp]:
  "reported_totals (xs @ ys) = reported_totals xs @ reported_totals ys"
  by (induction xs rule: reported_totals.induct) simp_all

lemma process_single_document_reported:
  "reported_totals (printed (snd (process_single_document w dry doc st)))
     = reported_totals (printed st)"
  by (simp add: process_single_document_def Let_def split: sum.splits)

lemma gather_reported:
  "reported_totals (printed (snd (gather w dry docs st))) = reported_totals (printed st)"
proof (induction docs arbitrary: st)
  case Nil
  show ?case by simp
next
  case (Cons d docs)
  show ?case
    using Cons.IH [of "snd (process_single_document w dry d st)"]
    by (simp add: split_beta Let_def process_single_document_reported)
qed

lemma process_documents_batch_reported:
  "reported_totals (printed (snd (process_documents_batch w dry docs st)))
     = reported_totals (printed st)"
  by (simp add: process_documents_batch_def split_beta gather_reported)

lemma group_totals_short:
  "length docs < k \<Longrightarrow> group_totals w limit k docs p = []"
  by (subst group_totals.simps) simp

lemma group_totals_reached:
  "limit_reached limit p \<Longrightarrow> group_totals w limit k docs p = []"
  by (subst group_totals.simps) simp

lemma group_totals_full:
  assumes "0 < k" "\<not> limit_reached limit p" "length g = k"
  shows "group_totals w limit k (g @ rest) p
           = (p + successes w g) # group_totals w limit k rest (p + successes w g)"
  using assms by (subst group_totals.simps) simp

lemma drain_reported:
  assumes "0 < bs" "int (length batch) < bs" "batch \<noteq> [] \<longrightarrow> \<not> limit_reached limit p"
  shows "reported_totals (printed (snd (snd (drain w limit bs dry cursor p batch st))))
           = reported_totals (printed st) @
             filter (\<lambda>t. int t mod bs = 0) (group_totals w limit (nat bs) (batch @ cursor) p)"
  using assms
proof (induction cursor arbitrary: p batch st)
  case Nil
  then have "length batch < nat bs" by simp
  then show ?case by (simp add: group_totals_short)
next
  case (Cons d cursor)
  show ?case
  proof (cases "limit_reached limit p")
    case True
    then show ?thesis
      by (simp add: group_totals_reached) (simp add: limit_reached_def)
  next
    case False
    then have nl: "\<not> (case limit of None \<Rightarrow> False | Some l \<Rightarrow> l \<le> int p)"
      by (simp add: limit_reached_def)
    show ?thesis
    proof (cases "int (length (batch @ [d])) \<ge> bs")
      case True
      with Cons.prems have len: "length (batch @ [d]) = nat bs" by simp
      obtain n st1 where b: "process_documents_batch w dry (batch @ [d]) st = (n, st1)"
        by (cases "process_documents_batch w dry (batch @ [d]) st") auto
      have n: "n = successes w (batch @ [d])"
        using process_documents_batch_count [of w dry "batch @ [d]" st] b by simp
      have r1: "reported_totals (printed st1) = reported_totals (printed st)"
        using process_documents_batch_reported [of w dry "batch @ [d]" st] b by simp
      define st2 where
        "st2 = (if bs > 0 \<and> int (p + n) mod bs = 0
                then emit (ProcessedProgress (p + n)) st1 else st1)"
      have r2: "reported_totals (printed st2)
                  = reported_totals (printed st) @ filter (\<lambda>t. int t mod bs = 0) [p + n]"
        using Cons.prems(1) by (simp add: st2_def r1)
      have step: "drain w limit bs dry (d # cursor) p batch st
                    = drain w limit bs dry cursor (p + n) [] st2"
        using nl True b unfolding st2_def by (simp add: Let_def split del: if_split)
      have ih: "reported_totals (printed (snd (snd (drain w limit bs dry cursor (p + n) [] st2))))
                  = reported_totals (printed st2) @
                    filter (\<lambda>t. int t mod bs = 0) (group_totals w limit (nat bs) cursor (p + n))"
        using Cons.IH [of "[]" "p + n" st2] Cons.prems(1) by simp
      have "group_totals w limit (nat bs) (batch @ d # cursor) p
              = (p + n) # group_totals w limit (nat bs) cursor (p + n)"
        using group_totals_full [of "nat bs" limit p "batch @ [d]" w cursor] Cons.prems(1)
          False len n by simp
      with ih r2 show ?thesis unfolding step by simp
    next
      case False
      then have len: "int (length (batch @ [d])) < bs" by simp
      have step: "drain w limit bs dry (d # cursor) p batch st
                    = drain w limit bs dry cursor p (batch @ [d]) st"
        using nl False by (simp add: Let_def)
      from Cons.IH [of "batch @ [d]" p st] Cons.prems(1) len \<open>\<not> limit_reached limit p\<close>
      show ?thesis unfolding step by simp
    qed
  qed
qed

lemma drain_reported_nonpositive:
  assumes "bs \<le> 0"
  shows "reported_totals (printed (snd (snd (drain w limit bs dry cursor p batch st))))
           = reported_totals (printed st)"
  using assms
proof (induction cursor arbitrary: p batch st)
  case Nil
  show ?case by simp
next
  case (Cons d cursor)
  obtain n st1 where b: "process_documents_batch w dry (batch @ [d]) st = (n, st1)"
    by (cases "process_documents_batch w dry (batch @ [d]) st") auto
  have r1: "reported_totals (printed st1) = reported_totals (printed st)"
    using process_documents_batch_reported [of w dry "batch @ [d]" st] b by simp
  from Cons.prems have ge: "int (length (batch @ [d])) \<ge> bs" by simp
  show ?case
  proof (cases "case limit of None \<Rightarrow> False | Some l \<Rightarrow> l \<le> int p")
    case True
    then show ?thesis by simp
  next
    case False
    with ge b Cons.prems
    have "drain w limit bs dry (d # cursor) p batch st = drain w limit bs dry cursor (p + n) [] st1"
      by (simp add: Let_def)
    with Cons.IH [OF Cons.prems, of "p + n" "[]" st1] r1 show ?thesis by (simp only:)
  qed
qed

lemma drain_reported_all:
  "reported_totals (printed (snd (snd (drain w limit bs dry cursor p [] st))))
     = reported_totals (printed st) @
       filter (\<lambda>t. int t mod bs = 0) (group_totals w limit (nat bs) cursor p)"
proof (cases "0 < bs")
  case True
  from drain_reported [OF True, of "[]" limit p w dry cursor st] True show ?thesis by simp
next
  case False
  then have "nat bs = 0" "bs \<le> 0" by simp_all
  with drain_reported_nonpositive [of bs w limit dry cursor p "[]" st]
  show ?thesis by (subst group_totals.simps) simp
qed

text \<open>
  Claim C9, as the code has it. A progress line is printed after a full group drawn
  in the loop exactly when the batch size is positive and the running total of
  successes is then a multiple of the batch size; so the progress lines of a run
  carry, in order, those running totals after full groups that are multiples of the
  batch size (all of them when no task has failed, none when the batch size is not
  positive). The last line of every run is the final total.
\<close>

theorem progress_reports:
  "reported_totals (printed (snd (process_documents coll limit resume_from bs dry w)))
     = filter (\<lambda>t. int t mod bs = 0)
         (group_totals w limit (nat bs) (find_sorted (resume_bound resume_from) coll) 0) \<and>
   last (printed (snd (process_documents coll limit resume_from bs dry w)))
     = DoneTotal (fst (process_documents coll limit resume_from bs dry w))"
proof -
  define st1 where
    "st1 = (if resume_from \<noteq> None \<and> resume_from \<noteq> Some [] \<and> resume_bound resume_from = None
            then emit (InvalidResumeFrom (the resume_from)) \<lparr>storage = coll, printed = []\<rparr>
            else \<lparr>storage = coll, printed = []\<rparr>)"
  define cursor where "cursor = find_sorted (resume_bound resume_from) coll"
  define st2 where "st2 = emit (ProcessingCount (length cursor)) st1"
  obtain p batch st3 where dr: "drain w limit bs dry cursor 0 [] st2 = (p, batch, st3)"
    by (cases "drain w limit bs dry cursor 0 [] st2") auto
  have r2: "reported_totals (printed st2) = []" by (simp add: st2_def st1_def)
  from drain_reported_all [of w limit bs dry cursor 0 st2] dr r2
  have r3: "reported_totals (printed st3)
              = filter (\<lambda>t. int t mod bs = 0) (group_totals w limit (nat bs) cursor 0)"
    by simp
  have run: "process_documents coll limit resume_from bs dry w =
     (let (processed1, st4) =
             (if batch \<noteq> []
              then (let (batch_processed, st') = process_documents_batch w dry batch st3
                    in (p + batch_processed, st'))
              else (p, st3))
      in (processed1, emit (DoneTotal processed1) st4))"
    unfolding process_documents_def Let_def
    using dr by (simp add: st1_def st2_def cursor_def Let_def)
  show ?thesis
  proof (cases "batch = []")
    case True
    with run r3 show ?thesis by (simp add: cursor_def)
  next
    case False
    with run r3 process_documents_batch_reported [of w dry batch st3]
    show ?thesis by (simp add: cursor_def split_beta)
  qed
qed

lemma three_documents_found: "find_sorted None three_documents = [doc_a, doc_b, doc_c]"
  by (simp add: find_sorted_def three_documents_def matches_query_def regex_space_def
      doc_a_def doc_b_def doc_c_def)

lemma strip_letters: "strip [97] = [97]" "strip [98] = [98]" "strip [99] = [99]"
  by (simp_all add: strip_def isspace_def)

lemma three_documents_text:
  "text_of doc_a = [97]" "text_of doc_b = [98]" "text_of doc_c = [99]"
  by (simp_all add: doc_a_def doc_b_def doc_c_def text_of_def)

lemma three_documents_ids: "doc_id doc_a = 1" "doc_id doc_b = 2" "doc_id doc_c = 3"
  by (simp_all add: doc_a_def doc_b_def doc_c_def)

lemma plain_letters:
  "normalize_quote_characters [98] = [98]" "normalize_quote_characters [99] = [99]"
  by (simp_all add: normalize_quote_characters_map quote_table_def)

lemma flaky_tasks:
  "process_single_document flaky_world False doc_a st
     = (False, emit (NormalizationFailed 1 RequestTimeout) (emit (SendingText [97]) st))"
  "process_single_document flaky_world False doc_b st
     = (True, (emit (Updating 2) (emit (SendingText [98]) st))
              \<lparr>storage := update_one 2 (build_revision 1700000000 doc_b [98]) (storage st)\<rparr>)"
  "process_single_document flaky_world False doc_c st
     = (True, (emit (Updating 3) (emit (SendingText [99]) st))
              \<lparr>storage := update_one 3 (build_revision 1700000000 doc_c [99]) (storage st)\<rparr>)"
  by (simp_all add: process_single_document_def three_documents_text three_documents_ids
      strip_letters plain_letters flaky_world_def normalize_text_via_openai_compatible_def
      Let_def)

text \<open>
  Claim C9 as stated fails: with batch size 2, three eligible documents and a
  time-out on the first, the first group completes with a running total of 1 and the
  next group begins with no progress line in between; the run prints no progress
  line at all.
\<close>

theorem group_without_report:
  "printed (snd (process_documents three_documents None None 2 False flaky_world))
     = [ProcessingCount 3,
        ProcessingBatch 2,
        SendingText [97], NormalizationFailed 1 RequestTimeout,
        SendingText [98], Updating 2,
        ProcessingBatch 1,
        SendingText [99], Updating 3,
        DoneTotal 2]"
  by (simp add: process_documents_def resume_bound_def three_documents_found Let_def split_beta
      process_documents_batch_def flaky_tasks emit_def)

lemma steady_successes_ab: "successes steady_world [doc_a, doc_b] = 2"
  by (simp add: successes_def steady_outcome three_documents_text strip_letters)

lemma steady_successes_all: "successes steady_world [doc_a, doc_b, doc_c] = 3"
  by (simp add: successes_def steady_outcome three_documents_text strip_letters)

lemma steady_group_totals: "group_totals steady_world None 2 [doc_a, doc_b, doc_c] 0 = [2]"
proof -
  have "group_totals steady_world None 2 ([doc_a, doc_b] @ [doc_c]) 0
          = (0 + successes steady_world [doc_a, doc_b]) #
            group_totals steady_world None 2 [doc_c] (0 + successes steady_world [doc_a, doc_b])"
    by (rule group_totals_full) (simp_all add: limit_reached_def)
  then show ?thesis by (simp add: steady_successes_ab group_totals_short)
qed

theorem progress_reports_witness:
  "reported_totals (printed (snd (process_documents three_documents None None 2 False
                                    steady_world))) = [2] \<and>
   last (printed (snd (process_documents three_documents None None 2 False steady_world)))
     = DoneTotal 3"
proof -
  have n: "fst (process_documents three_documents None None 2 False steady_world) = 3"
    using process_documents_live [of three_documents None 2 steady_world]
    by (simp add: resume_bound_def three_documents_found steady_successes_all)
  have b: "nat 2 = 2" by simp
  from progress_reports [of three_documents None None 2 False steady_world]
  show ?thesis
    unfolding n b by (simp add: resume_bound_def three_documents_found steady_group_totals)
qed

end
